theory Spec2Isabelle
  imports Complex_Main "HOL-Library.Sublist"
begin

section \<open>Values, records and the rule catalog\<close>

text \<open>
  A record is a decoded JSON object: a Python dict from field names to values. Only two
  things about a value matter to the scanner: whether it is a \<open>str\<close>, and what \<open>str()\<close>
  prints for it. Strings, integers, booleans and \<open>None\<close> are modelled as they are; any
  other value (a float, a list, a nested object) is \<open>VOther\<close> and carries its \<open>str()\<close> text.
  A \<open>string\<close> is the list of the characters of the Python \<open>str\<close>.
\<close>

datatype pyval = VStr string | VInt int | VBool bool | VNone | VOther string

type_synonym pydict = "string \<rightharpoonup> pyval"

datatype error = KeyError | ValueError | AttributeError

text \<open>
  \<open>self.conf\<close> after \<open>_compile_regex\<close>. A compiled pattern is used through its
  \<open>fullmatch\<close> method only, so it is modelled by that method: the predicate telling which
  strings the pattern matches from start to end. Scores are Python floats; they are
  modelled as exact reals (the rounding error of binary floating-point addition is left
  out). The two rule tables are dicts iterated in insertion order: association lists.
\<close>

record standalone_rule =
  compiled :: "string \<Rightarrow> bool"
  base_score :: real
  redactor :: string

record combo_rule =
  keys :: "string list"
  combo_base_score :: real

record conf =
  standalone_pii_patterns :: "(string \<times> standalone_rule) list"
  combinatorial_pii_sets :: "(string \<times> combo_rule) list"
  redaction_placeholders :: "string \<rightharpoonup> string"

section \<open>Python built-ins used by the scanner\<close>

definition digit_char :: "nat \<Rightarrow> char" where
  "digit_char d = char_of (48 + d)"

fun nat_digits :: "nat \<Rightarrow> string" where
  "nat_digits n = (if n < 10 then [digit_char n] else nat_digits (n div 10) @ [digit_char (n mod 10)])"

declare nat_digits.simps [simp del]

definition int_str :: "int \<Rightarrow> string" where
  "int_str i = (if i < 0 then CHR ''-'' # nat_digits (nat (- i)) else nat_digits (nat i))"

text \<open>\<open>str(v)\<close>.\<close>

fun py_str :: "pyval \<Rightarrow> string" where
  "py_str (VStr s) = s"
| "py_str (VInt i) = int_str i"
| "py_str (VBool b) = (if b then ''True'' else ''False'')"
| "py_str VNone = ''None''"
| "py_str (VOther s) = s"

text \<open>\<open>isinstance(v, str)\<close>.\<close>

fun is_str :: "pyval \<Rightarrow> bool" where
  "is_str (VStr s) = True"
| "is_str v = False"

text \<open>\<open>sep.join(xs)\<close>.\<close>

fun join :: "string \<Rightarrow> string list \<Rightarrow> string" where
  "join sep [] = []"
| "join sep [x] = x"
| "join sep (x # y # ys) = x @ sep @ join sep (y # ys)"

text \<open>\<open>s.split(c, 1)\<close>: at most one split, at the first occurrence of \<open>c\<close>.\<close>

definition split1 :: "char \<Rightarrow> string \<Rightarrow> string list" where
  "split1 c s =
     (if c \<in> set s then [takeWhile (\<lambda>x. x \<noteq> c) s, tl (dropWhile (\<lambda>x. x \<noteq> c) s)] else [s])"

text \<open>\<open>v.split(c, 1)\<close> on any value: only a \<open>str\<close> has the method.\<close>

fun py_split1 :: "char \<Rightarrow> pyval \<Rightarrow> error + string list" where
  "py_split1 c (VStr s) = Inr (split1 c s)"
| "py_split1 c v = Inl AttributeError"

text \<open>\<open>a, b = xs\<close>: unpacking anything but two items raises ValueError.\<close>

fun unpack2 :: "string list \<Rightarrow> error + string \<times> string" where
  "unpack2 [a, b] = Inr (a, b)"
| "unpack2 xs = Inl ValueError"

text \<open>
  \<open>round(x, 2)\<close>: to the nearest multiple of 0.01, a tie going to the even one
  (on exact reals).
\<close>

definition round_half_even :: "real \<Rightarrow> int" where
  "round_half_even x =
     (let f = \<lfloor>x\<rfloor>; d = x - of_int f
      in if d < 1 / 2 then f else if 1 / 2 < d then f + 1 else if even f then f else f + 1)"

definition py_round2 :: "real \<Rightarrow> real" where
  "py_round2 x = of_int (round_half_even (x * 100)) / 100"

section \<open>The redaction strategies\<close>

text \<open>
  \<^verbatim>\<open>
  def _mask_str(self, text):
      if not isinstance(text, str) or len(text) < 5: return "****"
      return f"{text[:2]}{'X' * (len(text) - 4)}{text[-2:]}"
  \<close>
\<close>

fun mask_str :: "pyval \<Rightarrow> error + string" where
  "mask_str (VStr text) =
     (if length text < 5 then Inr ''****''
      else Inr (take 2 text @ replicate (length text - 4) CHR ''X'' @ drop (length text - 2) text))"
| "mask_str v = Inr ''****''"

text \<open>
  \<^verbatim>\<open>
  def _mask_mail(self, mail):
      try:
          user, domain = mail.split('@', 1)
          return self._mask_str(user) + "@" + domain
      except (ValueError, AttributeError):
          return self._mask_str(str(mail))
  \<close>
  (the source builds the returned string with an f-string).
  \<open>mask_mail_try\<close> is the body of the \<open>try\<close>; \<open>mask_mail\<close> adds the handler, which
  lets any other error through.
\<close>

definition mask_mail_try :: "pyval \<Rightarrow> error + string" where
  "mask_mail_try mail =
     (case py_split1 CHR ''@'' mail of
        Inl e \<Rightarrow> Inl e
      | Inr parts \<Rightarrow>
          (case unpack2 parts of
             Inl e \<Rightarrow> Inl e
           | Inr (user, domain) \<Rightarrow>
               (case mask_str (VStr user) of
                  Inl e \<Rightarrow> Inl e
                | Inr m \<Rightarrow> Inr (m @ ''@'' @ domain))))"

definition mask_mail :: "pyval \<Rightarrow> error + string" where
  "mask_mail mail =
     (case mask_mail_try mail of
        Inr s \<Rightarrow> Inr s
      | Inl e \<Rightarrow>
          if e = ValueError \<or> e = AttributeError then mask_str (VStr (py_str mail)) else Inl e)"

text \<open>
  \<^verbatim>\<open>
  def _mask_num(self, num):
      return self._mask_str(str(num))
  \<close>
\<close>

definition mask_num :: "pyval \<Rightarrow> error + string" where
  "mask_num num = mask_str (VStr (py_str num))"

text \<open>\<open>self.redactors\<close>, the dict built by \<open>_get_redactors\<close>.\<close>

definition redactors :: "string \<rightharpoonup> (pyval \<Rightarrow> error + string)" where
  "redactors =
     [''mask_string'' \<mapsto> mask_str, ''mask_email'' \<mapsto> mask_mail, ''mask_numeric'' \<mapsto> mask_num]"

section \<open>The scan\<close>

text \<open>The local variables of \<open>scan\<close> that the loops update.\<close>

record scan_state =
  safe_rec :: pydict
  score :: real
  log_entries :: "string list"

text \<open>The tuple that \<open>scan\<close> returns.\<close>

record scan_result =
  res_rec :: pydict
  res_is_pii :: bool
  res_confidence :: real
  res_reason :: string

text \<open>
  \<^verbatim>\<open>
  for pii_key, rule in self.conf['standalone_pii_patterns'].items():
      if pii_key in rec and isinstance(rec[pii_key], str):
          if rule['compiled'].fullmatch(rec[pii_key]):
              score += rule['base_score']
              log.append(f"found solo pii [{pii_key}]")
              mask_fn = self.redactors[rule['redactor']]
              safe_rec[pii_key] = mask_fn(rec[pii_key])
  \<close>
  An exception leaves \<open>scan\<close>, so the updates made before it are lost with the state.
\<close>

fun standalone_step :: "pydict \<Rightarrow> string \<times> standalone_rule \<Rightarrow> scan_state \<Rightarrow> error + scan_state" where
  "standalone_step rec (pii_key, rule) st =
     (case rec pii_key of
        Some (VStr s) \<Rightarrow>
          if compiled rule s then
            (case redactors (redactor rule) of
               None \<Rightarrow> Inl KeyError
             | Some mask_fn \<Rightarrow>
                 (case mask_fn (VStr s) of
                    Inl e \<Rightarrow> Inl e
                  | Inr m \<Rightarrow>
                      Inr (st\<lparr>score := score st + base_score rule,
                              log_entries := log_entries st @ [''found solo pii ['' @ pii_key @ '']''],
                              safe_rec := (safe_rec st)(pii_key \<mapsto> VStr m)\<rparr>)))
          else Inr st
      | _ \<Rightarrow> Inr st)"

fun standalone_pass :: "pydict \<Rightarrow> (string \<times> standalone_rule) list \<Rightarrow> scan_state \<Rightarrow> error + scan_state" where
  "standalone_pass rec [] st = Inr st"
| "standalone_pass rec (r # rs) st =
     (case standalone_step rec r st of
        Inl e \<Rightarrow> Inl e
      | Inr st' \<Rightarrow> standalone_pass rec rs st')"

text \<open>
  \<^verbatim>\<open>
  combo_keys = set()
  for _, rule in self.conf['combinatorial_pii_sets'].items():
      keys_found = [k for k in rule['keys'] if k in rec]
      if len(keys_found) >= 2:
          score += rule['base_score'] * len(keys_found)
          log.append(f"found combo pii [{'+'.join(keys_found)}]")
          combo_keys.update(keys_found)
  \<close>
  The set \<open>combo_keys\<close> is a list without repetition: \<open>List.union\<close> adds only the
  elements that are not in it yet. Its order stands for the order in which Python
  happens to iterate over the set (\<open>redact_pass_order\<close> below: the order does not
  matter).
\<close>

definition keys_found :: "pydict \<Rightarrow> combo_rule \<Rightarrow> string list" where
  "keys_found rec rule = filter (\<lambda>k. rec k \<noteq> None) (keys rule)"

fun combo_step :: "pydict \<Rightarrow> string \<times> combo_rule \<Rightarrow> scan_state \<times> string list \<Rightarrow> scan_state \<times> string list" where
  "combo_step rec (name, rule) (st, combo_keys) =
     (let kf = keys_found rec rule
      in if 2 \<le> length kf then
           (st\<lparr>score := score st + combo_base_score rule * real (length kf),
               log_entries := log_entries st @ [''found combo pii ['' @ join ''+'' kf @ '']'']\<rparr>,
            List.union kf combo_keys)
         else (st, combo_keys))"

fun combo_pass :: "pydict \<Rightarrow> (string \<times> combo_rule) list \<Rightarrow> scan_state \<times> string list \<Rightarrow> scan_state \<times> string list" where
  "combo_pass rec [] x = x"
| "combo_pass rec (r # rs) x = combo_pass rec rs (combo_step rec r x)"

text \<open>
  \<^verbatim>\<open>
  for key in combo_keys:
      mask = self.conf['redaction_placeholders'].get(key)
      if mask in self.redactors:
           safe_rec[key] = self.redactors[mask](rec[key])
      elif mask:
          safe_rec[key] = mask
  \<close>
  \<open>.get\<close> gives \<open>None\<close> for a field with no placeholder; \<open>None\<close> is in no dict of names
  and is falsy, and so is the empty string (\<open>mask_val\<close> is the variable \<open>mask\<close>).
\<close>

fun redact_key :: "conf \<Rightarrow> pydict \<Rightarrow> string \<Rightarrow> scan_state \<Rightarrow> error + scan_state" where
  "redact_key c rec key st =
     (case redaction_placeholders c key of
        None \<Rightarrow> Inr st
      | Some mask_val \<Rightarrow>
          (case redactors mask_val of
             Some mask_fn \<Rightarrow>
               (case rec key of
                  None \<Rightarrow> Inl KeyError
                | Some v \<Rightarrow>
                    (case mask_fn v of
                       Inl e \<Rightarrow> Inl e
                     | Inr m \<Rightarrow> Inr (st\<lparr>safe_rec := (safe_rec st)(key \<mapsto> VStr m)\<rparr>)))
           | None \<Rightarrow>
               if mask_val \<noteq> [] then Inr (st\<lparr>safe_rec := (safe_rec st)(key \<mapsto> VStr mask_val)\<rparr>)
               else Inr st))"

fun redact_pass :: "conf \<Rightarrow> pydict \<Rightarrow> string list \<Rightarrow> scan_state \<Rightarrow> error + scan_state" where
  "redact_pass c rec [] st = Inr st"
| "redact_pass c rec (key # ks) st =
     (case redact_key c rec key st of
        Inl e \<Rightarrow> Inl e
      | Inr st' \<Rightarrow> redact_pass c rec ks st')"

text \<open>
  \<^verbatim>\<open>
  confidence = min(1.0, score)
  is_pii = confidence > 0.5
  reason = ", ".join(log) if log else "No PII detected"
  return safe_rec, is_pii, round(confidence, 2), reason
  \<close>
\<close>

definition finish :: "scan_state \<Rightarrow> scan_result" where
  "finish st =
     (let confidence = min 1 (score st);
          is_pii = (1 / 2 < confidence);
          reason = (if log_entries st \<noteq> [] then join '', '' (log_entries st) else ''No PII detected'')
      in \<lparr>res_rec = safe_rec st, res_is_pii = is_pii,
          res_confidence = py_round2 confidence, res_reason = reason\<rparr>)"

text \<open>
  The pending-redaction set \<open>combo_keys\<close> that \<open>scan\<close> builds for a record (the loop
  that builds it reads the state but never lets it decide which keys are added).
\<close>

definition combo_keys_of :: "conf \<Rightarrow> pydict \<Rightarrow> string list" where
  "combo_keys_of c rec =
     snd (combo_pass rec (combinatorial_pii_sets c)
            (\<lparr>safe_rec = rec, score = 0, log_entries = []\<rparr>, []))"

definition scan :: "conf \<Rightarrow> pydict \<Rightarrow> error + scan_result" where
  "scan c rec =
     (case standalone_pass rec (standalone_pii_patterns c)
             \<lparr>safe_rec = rec, score = 0, log_entries = []\<rparr> of
        Inl e \<Rightarrow> Inl e
      | Inr st1 \<Rightarrow>
          (case combo_pass rec (combinatorial_pii_sets c) (st1, []) of
             (st2, combo_keys) \<Rightarrow>
               (case redact_pass c rec combo_keys st2 of
                  Inl e \<Rightarrow> Inl e
                | Inr st3 \<Rightarrow> Inr (finish st3))))"

section \<open>The scan on a store of objects\<close>

text \<open>
  In Python the record, its sanitized copy and the catalog \<open>self.conf\<close> are objects
  reached through references: whether a write through \<open>safe_rec\<close> is seen through \<open>rec\<close>
  depends on \<open>rec.copy()\<close> making a new object. The store is the list of the objects, an
  address is an index into it. \<open>scan_h\<close> is \<open>scan\<close> with every read and write of a dict
  and every read of the catalog going through the store; its arguments are the store,
  the address of the catalog and the address of the record.
\<close>

datatype obj = Dict pydict | Catalog conf

type_synonym addr = nat

type_synonym heap = "obj list"

text \<open>Reading an object as a dict and as the catalog.\<close>

fun dict_of :: "obj \<Rightarrow> pydict" where
  "dict_of (Dict d) = d"
| "dict_of (Catalog c) = Map.empty"

fun conf_of :: "obj \<Rightarrow> conf" where
  "conf_of (Catalog c) = c"
| "conf_of (Dict d) =
     \<lparr>standalone_pii_patterns = [], combinatorial_pii_sets = [], redaction_placeholders = Map.empty\<rparr>"

text \<open>\<open>d.copy()\<close>: a new object with the same items.\<close>

definition h_copy :: "heap \<Rightarrow> addr \<Rightarrow> heap \<times> addr" where
  "h_copy h a = (h @ [Dict (dict_of (h ! a))], length h)"

text \<open>\<open>d[k] = v\<close>.\<close>

definition h_set :: "heap \<Rightarrow> addr \<Rightarrow> string \<Rightarrow> pyval \<Rightarrow> heap" where
  "h_set h a k v = h[a := Dict ((dict_of (h ! a))(k \<mapsto> v))]"

record h_state =
  heap :: heap
  h_score :: real
  h_log :: "string list"

fun standalone_step_h :: "addr \<Rightarrow> addr \<Rightarrow> string \<times> standalone_rule \<Rightarrow> h_state \<Rightarrow> error + h_state" where
  "standalone_step_h rec_a safe_a (pii_key, rule) hs =
     (case dict_of (heap hs ! rec_a) pii_key of
        Some (VStr s) \<Rightarrow>
          if compiled rule s then
            (case redactors (redactor rule) of
               None \<Rightarrow> Inl KeyError
             | Some mask_fn \<Rightarrow>
                 (case mask_fn (VStr s) of
                    Inl e \<Rightarrow> Inl e
                  | Inr m \<Rightarrow>
                      Inr (hs\<lparr>h_score := h_score hs + base_score rule,
                              h_log := h_log hs @ [''found solo pii ['' @ pii_key @ '']''],
                              heap := h_set (heap hs) safe_a pii_key (VStr m)\<rparr>)))
          else Inr hs
      | _ \<Rightarrow> Inr hs)"

fun standalone_pass_h :: "addr \<Rightarrow> addr \<Rightarrow> (string \<times> standalone_rule) list \<Rightarrow> h_state \<Rightarrow> error + h_state" where
  "standalone_pass_h rec_a safe_a [] hs = Inr hs"
| "standalone_pass_h rec_a safe_a (r # rs) hs =
     (case standalone_step_h rec_a safe_a r hs of
        Inl e \<Rightarrow> Inl e
      | Inr hs' \<Rightarrow> standalone_pass_h rec_a safe_a rs hs')"

fun combo_step_h :: "addr \<Rightarrow> string \<times> combo_rule \<Rightarrow> h_state \<times> string list \<Rightarrow> h_state \<times> string list" where
  "combo_step_h rec_a (name, rule) (hs, combo_keys) =
     (let kf = keys_found (dict_of (heap hs ! rec_a)) rule
      in if 2 \<le> length kf then
           (hs\<lparr>h_score := h_score hs + combo_base_score rule * real (length kf),
               h_log := h_log hs @ [''found combo pii ['' @ join ''+'' kf @ '']'']\<rparr>,
            List.union kf combo_keys)
         else (hs, combo_keys))"

fun combo_pass_h :: "addr \<Rightarrow> (string \<times> combo_rule) list \<Rightarrow> h_state \<times> string list \<Rightarrow> h_state \<times> string list" where
  "combo_pass_h rec_a [] x = x"
| "combo_pass_h rec_a (r # rs) x = combo_pass_h rec_a rs (combo_step_h rec_a r x)"

fun redact_key_h :: "addr \<Rightarrow> addr \<Rightarrow> addr \<Rightarrow> string \<Rightarrow> h_state \<Rightarrow> error + h_state" where
  "redact_key_h self_a rec_a safe_a key hs =
     (case redaction_placeholders (conf_of (heap hs ! self_a)) key of
        None \<Rightarrow> Inr hs
      | Some mask_val \<Rightarrow>
          (case redactors mask_val of
             Some mask_fn \<Rightarrow>
               (case dict_of (heap hs ! rec_a) key of
                  None \<Rightarrow> Inl KeyError
                | Some v \<Rightarrow>
                    (case mask_fn v of
                       Inl e \<Rightarrow> Inl e
                     | Inr m \<Rightarrow> Inr (hs\<lparr>heap := h_set (heap hs) safe_a key (VStr m)\<rparr>)))
           | None \<Rightarrow>
               if mask_val \<noteq> [] then Inr (hs\<lparr>heap := h_set (heap hs) safe_a key (VStr mask_val)\<rparr>)
               else Inr hs))"

fun redact_pass_h :: "addr \<Rightarrow> addr \<Rightarrow> addr \<Rightarrow> string list \<Rightarrow> h_state \<Rightarrow> error + h_state" where
  "redact_pass_h self_a rec_a safe_a [] hs = Inr hs"
| "redact_pass_h self_a rec_a safe_a (key # ks) hs =
     (case redact_key_h self_a rec_a safe_a key hs of
        Inl e \<Rightarrow> Inl e
      | Inr hs' \<Rightarrow> redact_pass_h self_a rec_a safe_a ks hs')"

text \<open>
  The result is the store after the call and the returned tuple, whose first component
  is the address of the sanitized dict. Each \<open>for\<close> loop reads the table it runs over
  once, when it starts.
\<close>

definition scan_h :: "heap \<Rightarrow> addr \<Rightarrow> addr \<Rightarrow> error + heap \<times> (addr \<times> bool \<times> real \<times> string)" where
  "scan_h h self_a rec_a =
     (case h_copy h rec_a of
        (h1, safe_a) \<Rightarrow>
          (case standalone_pass_h rec_a safe_a (standalone_pii_patterns (conf_of (h1 ! self_a)))
                  \<lparr>heap = h1, h_score = 0, h_log = []\<rparr> of
             Inl e \<Rightarrow> Inl e
           | Inr hs1 \<Rightarrow>
               (case combo_pass_h rec_a (combinatorial_pii_sets (conf_of (heap hs1 ! self_a))) (hs1, []) of
                  (hs2, combo_keys) \<Rightarrow>
                    (case redact_pass_h self_a rec_a safe_a combo_keys hs2 of
                       Inl e \<Rightarrow> Inl e
                     | Inr hs3 \<Rightarrow>
                         (let confidence = min 1 (h_score hs3);
                              is_pii = (1 / 2 < confidence);
                              reason = (if h_log hs3 \<noteq> [] then join '', '' (h_log hs3)
                                        else ''No PII detected'')
                          in Inr (heap hs3, (safe_a, is_pii, py_round2 confidence, reason)))))))"

text \<open>The store-level state that stands for a state of \<open>scan\<close>, the copy being the last object.\<close>

definition h_of :: "heap \<Rightarrow> scan_state \<Rightarrow> h_state" where
  "h_of h0 st = \<lparr>heap = h0 @ [Dict (safe_rec st)], h_score = score st, h_log = log_entries st\<rparr>"

section \<open>Closed forms of what the loops compute\<close>

text \<open>
  The definitions of this section are not functions of the source: they name, without a
  loop, what the theorems below prove the loops of \<open>scan\<close> to compute.

  \<open>fires\<close> is the guard of the standalone loop: the field is in the record, its value is
  a \<open>str\<close>, and the compiled pattern matches the whole of it.
\<close>

fun fires :: "pydict \<Rightarrow> string \<times> standalone_rule \<Rightarrow> bool" where
  "fires rec (pii_key, rule) =
     (case rec pii_key of Some (VStr s) \<Rightarrow> compiled rule s | _ \<Rightarrow> False)"

text \<open>The sum of the base scores of the standalone rules that fire.\<close>

definition standalone_score :: "pydict \<Rightarrow> (string \<times> standalone_rule) list \<Rightarrow> real" where
  "standalone_score rec rules = sum_list (map (\<lambda>(k, rule). base_score rule) (filter (fires rec) rules))"

text \<open>The guard of the combinatorial loop: at least two of the listed keys are in the record.\<close>

fun combo_matches :: "pydict \<Rightarrow> string \<times> combo_rule \<Rightarrow> bool" where
  "combo_matches rec (name, rule) = (2 \<le> length (keys_found rec rule))"

text \<open>The sum, over the combinatorial rules that match, of base score times number of keys found.\<close>

definition combo_score :: "pydict \<Rightarrow> (string \<times> combo_rule) list \<Rightarrow> real" where
  "combo_score rec rules =
     sum_list (map (\<lambda>(name, rule). combo_base_score rule * real (length (keys_found rec rule)))
       (filter (combo_matches rec) rules))"

text \<open>
  The value of a field of the sanitized copy after the redaction loop has visited it,
  \<open>old\<close> being its value before.
\<close>

definition redacted :: "conf \<Rightarrow> pydict \<Rightarrow> string \<Rightarrow> pyval option \<Rightarrow> pyval option" where
  "redacted c rec key old =
     (case redaction_placeholders c key of
        None \<Rightarrow> old
      | Some mask_val \<Rightarrow>
          (case redactors mask_val of
             Some mask_fn \<Rightarrow>
               (case rec key of
                  None \<Rightarrow> old
                | Some v \<Rightarrow> (case mask_fn v of Inl e \<Rightarrow> old | Inr m \<Rightarrow> Some (VStr m)))
           | None \<Rightarrow> if mask_val \<noteq> [] then Some (VStr mask_val) else old))"

text \<open>The keys found by the combinatorial rules that match, as a set.\<close>

definition pending_keys :: "pydict \<Rightarrow> (string \<times> combo_rule) list \<Rightarrow> string set" where
  "pending_keys rec rules =
     (\<Union>(name, rule) \<in> set (filter (combo_matches rec) rules). set (keys_found rec rule))"

text \<open>The running total \<open>score\<close> at the end of \<open>scan\<close>.\<close>

definition total_score :: "conf \<Rightarrow> pydict \<Rightarrow> real" where
  "total_score c rec =
     standalone_score rec (standalone_pii_patterns c) + combo_score rec (combinatorial_pii_sets c)"

text \<open>
  Two invariants of the catalog's data model: every redactor name of a standalone rule
  is a key of \<open>self.redactors\<close>, and base scores are not negative. The loader checks
  neither.
\<close>

definition valid_catalog :: "conf \<Rightarrow> bool" where
  "valid_catalog c = (\<forall>(k, rule) \<in> set (standalone_pii_patterns c). redactor rule \<in> dom redactors)"

definition nonneg_scores :: "conf \<Rightarrow> bool" where
  "nonneg_scores c =
     ((\<forall>(k, rule) \<in> set (standalone_pii_patterns c). 0 \<le> base_score rule) \<and>
      (\<forall>(name, rule) \<in> set (combinatorial_pii_sets c). 0 \<le> combo_base_score rule))"

text \<open>One field of the sanitized record that \<open>scan\<close> returns.\<close>

definition scan_field :: "conf \<Rightarrow> pydict \<Rightarrow> string \<Rightarrow> error + pyval option" where
  "scan_field c rec key = (case scan c rec of Inl e \<Rightarrow> Inl e | Inr r \<Rightarrow> Inr (res_rec r key))"

section \<open>Example catalogs and records\<close>

text \<open>
  The repository ships no configuration file; these catalogs are examples in the format
  that \<open>_load_conf\<close> reads, with the patterns given by the strings they match.
\<close>

definition ssn_pattern :: "string \<Rightarrow> bool" where
  "ssn_pattern s = (length s = 11 \<and> list_all (\<lambda>x. x \<in> set ''0123456789-'') s)"

definition email_pattern :: "string \<Rightarrow> bool" where
  "email_pattern s = (CHR ''@'' \<in> set s \<and> CHR '' '' \<notin> set s)"

definition demo_conf :: conf where
  "demo_conf =
     \<lparr>standalone_pii_patterns =
        [(''ssn'', \<lparr>compiled = ssn_pattern, base_score = 9 / 10, redactor = ''mask_numeric''\<rparr>),
         (''email'', \<lparr>compiled = email_pattern, base_score = 4 / 10, redactor = ''mask_email''\<rparr>)],
      combinatorial_pii_sets =
        [(''full_name'', \<lparr>keys = [''first_name'', ''last_name''], combo_base_score = 3 / 10\<rparr>),
         (''place'', \<lparr>keys = [''city'', ''zip'', ''last_name''], combo_base_score = 1 / 10\<rparr>)],
      redaction_placeholders =
        [''first_name'' \<mapsto> ''mask_string'', ''last_name'' \<mapsto> ''[REDACTED]'', ''zip'' \<mapsto> '''']\<rparr>"

definition demo_rec :: pydict where
  "demo_rec =
     [''ssn'' \<mapsto> VStr ''123-45-6789'', ''first_name'' \<mapsto> VStr ''Alexander'',
      ''last_name'' \<mapsto> VStr ''Smith'', ''city'' \<mapsto> VStr ''Springfield'',
      ''zip'' \<mapsto> VStr ''94110'', ''age'' \<mapsto> VInt 42]"




section \<open>Properties of the masking strategies\<close>

lemma take2_nth: "2 \<le> length s \<Longrightarrow> take 2 s = [s ! 0, s ! 1]"
  by (cases s; cases "tl s") auto

lemma drop_last2_nth:
  "2 \<le> length s \<Longrightarrow> drop (length s - 2) s = [s ! (length s - 2), s ! (length s - 1)]"
proof -
  assume len: "2 \<le> length s"
  have "drop (length s - 2) s = s ! (length s - 2) # drop (Suc (length s - 2)) s"
    using len by (simp add: Cons_nth_drop_Suc)
  also have "Suc (length s - 2) = length s - 1" using len by simp
  also have "drop (length s - 1) s = [s ! (length s - 1)]"
    using len Cons_nth_drop_Suc [of "length s - 1" s] by simp
  finally show ?thesis .
qed

lemma mask_str_not_str: "\<not> is_str v \<Longrightarrow> mask_str v = Inr ''****''"
  by (cases v) simp_all

lemma mask_str_total: "\<exists>s. mask_str v = Inr s"
  by (cases v) simp_all

lemma mask_mail_split:
  "CHR ''@'' \<notin> set u \<Longrightarrow>
   mask_mail (VStr (u @ ''@'' @ d)) =
     (case mask_str (VStr u) of Inl e \<Rightarrow> Inl e | Inr m \<Rightarrow> Inr (m @ ''@'' @ d))"
  by (simp add: mask_mail_def mask_mail_try_def split1_def takeWhile_append dropWhile_append
      split: sum.splits)

lemma mask_mail_no_at: "CHR ''@'' \<notin> set s \<Longrightarrow> mask_mail (VStr s) = mask_str (VStr s)"
  by (simp add: mask_mail_def mask_mail_try_def split1_def)

lemma mask_mail_not_str: "\<not> is_str v \<Longrightarrow> mask_mail v = mask_str (VStr (py_str v))"
  by (cases v) (simp_all add: mask_mail_def mask_mail_try_def)

lemma mask_mail_total: "\<exists>s. mask_mail v = Inr s"
  by (cases v) (auto simp add: mask_mail_def mask_mail_try_def split1_def split: sum.splits)

lemma mask_num_total: "\<exists>s. mask_num v = Inr s"
  unfolding mask_num_def by (rule mask_str_total)

lemma redactors_total: "redactors name = Some mask_fn \<Longrightarrow> \<exists>s. mask_fn v = Inr s"
  using mask_str_total [of v] mask_mail_total [of v] mask_num_total [of v]
  by (auto simp add: redactors_def split: if_splits)

text \<open>
  Claim C6. \<open>mask_string\<close> returns exactly \<open>****\<close> for a value that is not a string and
  for a string of fewer than 5 characters, the empty string included. For a string of
  length \<open>n \<ge> 5\<close> it returns the first two characters, \<open>n - 4\<close> times the letter X and
  the last two characters, a string of the same length \<open>n\<close>. On \<open>password123\<close> the
  result is \<open>paXXXXXXX23\<close>.
\<close>

theorem C6_mask_string:
  "(\<not> is_str v \<longrightarrow> mask_str v = Inr ''****'') \<and>
   (length s < 5 \<longrightarrow> mask_str (VStr s) = Inr ''****'') \<and>
   (5 \<le> length t \<longrightarrow>
      (\<exists>out. mask_str (VStr t) = Inr out \<and> length out = length t \<and>
         out = [t ! 0, t ! 1] @ replicate (length t - 4) CHR ''X''
                 @ [t ! (length t - 2), t ! (length t - 1)])) \<and>
   mask_str (VStr []) = Inr ''****'' \<and>
   mask_str (VStr ''password123'') = Inr ''paXXXXXXX23''"
proof -
  have long: "mask_str (VStr t) = Inr ([t ! 0, t ! 1] @ replicate (length t - 4) CHR ''X''
                 @ [t ! (length t - 2), t ! (length t - 1)])" if "5 \<le> length t"
    using that by (simp add: take2_nth drop_last2_nth)
  have len: "length ([t ! 0, t ! 1] @ replicate (length t - 4) CHR ''X''
                 @ [t ! (length t - 2), t ! (length t - 1)]) = length t" if "5 \<le> length t"
    using that by simp
  show ?thesis
    using long len by (simp add: mask_str_not_str)
qed

theorem C6_mask_string_witness:
  "mask_str (VInt 7) = Inr ''****'' \<and> mask_str (VStr ''abcd'') = Inr ''****'' \<and>
   mask_str (VStr ''hello'') = Inr ''heXlo''"
  using C6_mask_string [of "VInt 7" "''abcd''" "''hello''"] by simp

text \<open>
  Claim C5, as amended. \<open>mask_email\<close> splits its input at the first \<open>@\<close>: the part before
  it is masked by \<open>mask_string\<close> and the part after it is attached unchanged. A string
  with no \<open>@\<close> and a value that is not a string give \<open>mask_string\<close> of the value's
  \<open>str()\<close> form. On \<open>jane.doe@example.com\<close> the result is \<open>jaXXXXoe@example.com\<close>: the
  local part has 8 characters, so 4 of them are replaced and its last two, \<open>oe\<close>, are
  kept.
\<close>

theorem C5_mask_email:
  "(CHR ''@'' \<notin> set u \<longrightarrow>
      (\<exists>m. mask_str (VStr u) = Inr m \<and> mask_mail (VStr (u @ ''@'' @ d)) = Inr (m @ ''@'' @ d))) \<and>
   (CHR ''@'' \<notin> set s \<longrightarrow> mask_mail (VStr s) = mask_str (VStr (py_str (VStr s)))) \<and>
   (\<not> is_str v \<longrightarrow> mask_mail v = mask_str (VStr (py_str v))) \<and>
   mask_mail (VStr ''jane.doe@example.com'') = Inr ''jaXXXXoe@example.com''"
proof -
  have split: "\<exists>m. mask_str (VStr u) = Inr m \<and> mask_mail (VStr (u @ ''@'' @ d)) = Inr (m @ ''@'' @ d)"
    if "CHR ''@'' \<notin> set u"
  proof -
    obtain m where m: "mask_str (VStr u) = Inr m"
      using mask_str_total by blast
    show ?thesis
      using m mask_mail_split [OF that, of d] by (simp del: mask_str.simps)
  qed
  have jane: "mask_mail (VStr ''jane.doe@example.com'') = Inr ''jaXXXXoe@example.com''"
    by (simp add: mask_mail_def mask_mail_try_def split1_def)
  show ?thesis
    using split jane by (simp add: mask_mail_no_at mask_mail_not_str)
qed

theorem C5_mask_email_witness:
  "mask_mail (VStr ''bob.smith@x.org'') = Inr ''boXXXXXth@x.org'' \<and>
   mask_mail (VStr ''nobody'') = Inr ''noXXdy'' \<and>
   mask_mail (VInt 1234567) = mask_str (VStr (py_str (VInt 1234567)))"
  using C5_mask_email [of "''bob.smith''" "''x.org''" "''nobody''" "VInt 1234567"] by simp

text \<open>
  The value the specification gives for \<open>jane.doe@example.com\<close>, with five X and one
  kept character at the end of the local part, is not what \<open>mask_email\<close> returns.
\<close>

theorem C5_counterexample:
  "mask_mail (VStr ''jane.doe@example.com'') \<noteq> Inr ''jaXXXXXe@example.com''"
  by (simp add: mask_mail_def mask_mail_try_def split1_def)

section \<open>The standalone pass\<close>

lemma fires_iff: "fires rec (k, rule) \<longleftrightarrow> (\<exists>s. rec k = Some (VStr s) \<and> compiled rule s)"
  by (auto split: option.splits pyval.splits)

declare fires.simps [simp del]

lemma standalone_step_not_fires: "\<not> fires rec r \<Longrightarrow> standalone_step rec r st = Inr st"
  by (cases r) (auto simp: fires_iff split: option.splits pyval.splits)

lemma standalone_step_fires:
  assumes "fires rec (k, rule)" and "redactors (redactor rule) = Some mask_fn"
  shows "\<exists>s m. rec k = Some (VStr s) \<and> mask_fn (VStr s) = Inr m \<and>
           standalone_step rec (k, rule) st =
             Inr (st\<lparr>score := score st + base_score rule,
                     log_entries := log_entries st @ [''found solo pii ['' @ k @ '']''],
                     safe_rec := (safe_rec st)(k \<mapsto> VStr m)\<rparr>)"
proof -
  from assms(1) obtain s where s: "rec k = Some (VStr s)" "compiled rule s"
    by (auto simp: fires_iff)
  from redactors_total [OF assms(2)] obtain m where m: "mask_fn (VStr s) = Inr m"
    by blast
  show ?thesis using s m assms(2) by simp
qed

lemma standalone_step_unknown:
  "fires rec (k, rule) \<Longrightarrow> redactors (redactor rule) = None \<Longrightarrow>
   standalone_step rec (k, rule) st = Inl KeyError"
  by (auto simp: fires_iff)

lemma standalone_step_cases:
  assumes "standalone_step rec (k, rule) st = Inr st'"
  shows "(\<not> fires rec (k, rule) \<and> st' = st) \<or>
         (fires rec (k, rule) \<and>
          (\<exists>s m mask_fn. rec k = Some (VStr s) \<and> redactors (redactor rule) = Some mask_fn \<and>
             mask_fn (VStr s) = Inr m \<and>
             st' = st\<lparr>score := score st + base_score rule,
                     log_entries := log_entries st @ [''found solo pii ['' @ k @ '']''],
                     safe_rec := (safe_rec st)(k \<mapsto> VStr m)\<rparr>))"
  using assms by (auto simp: fires_iff split: option.splits pyval.splits if_splits sum.splits)

declare standalone_step.simps [simp del]

lemma standalone_pass_score:
  "standalone_pass rec rules st = Inr st' \<Longrightarrow> score st' = score st + standalone_score rec rules"
proof (induction rules arbitrary: st)
  case Nil
  then show ?case by (simp add: standalone_score_def)
next
  case (Cons r rs)
  obtain k rule where r: "r = (k, rule)" by (cases r)
  from Cons.prems obtain st1 where
    st1: "standalone_step rec (k, rule) st = Inr st1" and rest: "standalone_pass rec rs st1 = Inr st'"
    by (auto simp: r split: sum.splits)
  from standalone_step_cases [OF st1] have "score st1 = score st + (if fires rec (k, rule) then base_score rule else 0)"
    by auto
  with Cons.IH [OF rest] show ?case
    by (simp add: r standalone_score_def)
qed

lemma standalone_pass_log:
  "standalone_pass rec rules st = Inr st' \<Longrightarrow>
   log_entries st' =
     log_entries st @ map (\<lambda>(k, rule). ''found solo pii ['' @ k @ '']'') (filter (fires rec) rules)"
proof (induction rules arbitrary: st)
  case Nil
  then show ?case by simp
next
  case (Cons r rs)
  obtain k rule where r: "r = (k, rule)" by (cases r)
  from Cons.prems obtain st1 where
    st1: "standalone_step rec (k, rule) st = Inr st1" and rest: "standalone_pass rec rs st1 = Inr st'"
    by (auto simp: r split: sum.splits)
  from standalone_step_cases [OF st1]
  have "log_entries st1 = log_entries st @ (if fires rec (k, rule) then [''found solo pii ['' @ k @ '']''] else [])"
    by auto
  with Cons.IH [OF rest] show ?case
    by (simp add: r)
qed

lemma standalone_pass_safe_other:
  "standalone_pass rec rules st = Inr st' \<Longrightarrow>
   \<forall>rule. (k, rule) \<in> set rules \<longrightarrow> \<not> fires rec (k, rule) \<Longrightarrow>
   safe_rec st' k = safe_rec st k"
proof (induction rules arbitrary: st)
  case Nil
  then show ?case by simp
next
  case (Cons r rs)
  obtain k' rule where r: "r = (k', rule)" by (cases r)
  from Cons.prems(1) obtain st1 where
    st1: "standalone_step rec (k', rule) st = Inr st1" and rest: "standalone_pass rec rs st1 = Inr st'"
    by (auto simp: r split: sum.splits)
  from standalone_step_cases [OF st1] Cons.prems(2) have "safe_rec st1 k = safe_rec st k"
    by (auto simp: r)
  moreover have "safe_rec st' k = safe_rec st1 k"
    using Cons.IH [OF rest] Cons.prems(2) by simp
  ultimately show ?case by simp
qed


lemma standalone_pass_dom:
  "standalone_pass rec rules st = Inr st' \<Longrightarrow> dom rec \<subseteq> dom (safe_rec st) \<Longrightarrow>
   dom (safe_rec st') = dom (safe_rec st)"
proof (induction rules arbitrary: st)
  case Nil
  then show ?case by simp
next
  case (Cons r rs)
  obtain k rule where r: "r = (k, rule)" by (cases r)
  from Cons.prems(1) obtain st1 where
    st1: "standalone_step rec (k, rule) st = Inr st1" and rest: "standalone_pass rec rs st1 = Inr st'"
    by (auto simp: r split: sum.splits)
  have "dom (safe_rec st1) = dom (safe_rec st)"
  proof (cases "fires rec (k, rule)")
    case True
    then have "k \<in> dom rec" by (auto simp: fires_iff)
    with Cons.prems(2) have "k \<in> dom (safe_rec st)" by blast
    with standalone_step_cases [OF st1] show ?thesis by (auto split: if_splits)
  next
    case False
    with standalone_step_cases [OF st1] show ?thesis by simp
  qed
  with Cons.IH [OF rest] Cons.prems(2) show ?case by simp
qed

lemma standalone_pass_total:
  "\<forall>(k, rule) \<in> set rules. redactor rule \<in> dom redactors \<Longrightarrow>
   \<exists>st'. standalone_pass rec rules st = Inr st'"
proof (induction rules arbitrary: st)
  case Nil
  then show ?case by simp
next
  case (Cons r rs)
  obtain k rule where r: "r = (k, rule)" by (cases r)
  from Cons.prems obtain mask_fn where fn: "redactors (redactor rule) = Some mask_fn"
    by (auto simp: r)
  have "\<exists>st1. standalone_step rec (k, rule) st = Inr st1"
  proof (cases "fires rec (k, rule)")
    case True
    from standalone_step_fires [OF True fn] show ?thesis by blast
  next
    case False
    from standalone_step_not_fires [OF this] show ?thesis by blast
  qed
  then obtain st1 where st1: "standalone_step rec (k, rule) st = Inr st1" ..
  from Cons.prems have "\<forall>(k, rule) \<in> set rs. redactor rule \<in> dom redactors" by simp
  from Cons.IH [OF this] obtain st' where "standalone_pass rec rs st1 = Inr st'" by blast
  with st1 show ?case by (simp add: r)
qed

lemma standalone_pass_none_fire:
  "\<forall>r \<in> set rules. \<not> fires rec r \<Longrightarrow> standalone_pass rec rules st = Inr st"
  by (induction rules arbitrary: st) (simp_all add: standalone_step_not_fires)


section \<open>The combinatorial pass and the redaction of its keys\<close>

lemma keys_found_dom: "set (keys_found rec rule) \<subseteq> dom rec"
  by (auto simp: keys_found_def)

lemma combo_step_eq:
  "combo_step rec (name, rule) (st, ck) =
     (if combo_matches rec (name, rule) then
        (st\<lparr>score := score st + combo_base_score rule * real (length (keys_found rec rule)),
            log_entries := log_entries st @
              [''found combo pii ['' @ join ''+'' (keys_found rec rule) @ '']'']\<rparr>,
         List.union (keys_found rec rule) ck)
      else (st, ck))"
  by (simp add: Let_def)

declare combo_step.simps [simp del]

lemma combo_pass_state:
  "fst (combo_pass rec rules (st, ck)) =
     st\<lparr>score := score st + combo_score rec rules,
        log_entries := log_entries st @
          map (\<lambda>(name, rule). ''found combo pii ['' @ join ''+'' (keys_found rec rule) @ '']'')
            (filter (combo_matches rec) rules)\<rparr>"
proof (induction rules arbitrary: st ck)
  case Nil
  then show ?case by (simp add: combo_score_def)
next
  case (Cons r rs)
  obtain name rule where r: "r = (name, rule)" by (cases r)
  show ?case
  proof (cases "combo_matches rec (name, rule)")
    case True
    then show ?thesis
      using Cons.IH by (simp add: r combo_step_eq combo_score_def add.assoc del: combo_matches.simps)
  next
    case False
    then show ?thesis
      using Cons.IH by (simp add: r combo_step_eq combo_score_def del: combo_matches.simps)
  qed
qed

lemma combo_pass_keys:
  "set (snd (combo_pass rec rules (st, ck))) = set ck \<union> pending_keys rec rules"
proof (induction rules arbitrary: st ck)
  case Nil
  then show ?case by (simp add: pending_keys_def)
next
  case (Cons r rs)
  obtain name rule where r: "r = (name, rule)" by (cases r)
  show ?case
    using Cons.IH by (auto simp add: r combo_step_eq pending_keys_def simp del: combo_matches.simps)
qed

lemma combo_pass_distinct:
  "distinct ck \<Longrightarrow> distinct (snd (combo_pass rec rules (st, ck)))"
proof (induction rules arbitrary: st ck)
  case Nil
  then show ?case by simp
next
  case (Cons r rs)
  obtain name rule where r: "r = (name, rule)" by (cases r)
  show ?case
    using Cons.IH Cons.prems by (simp add: r combo_step_eq del: combo_matches.simps)
qed

lemma pending_keys_dom: "pending_keys rec rules \<subseteq> dom rec"
  using keys_found_dom by (fastforce simp: pending_keys_def)

lemma redacted_idem: "redacted c rec key (redacted c rec key old) = redacted c rec key old"
  by (auto simp add: redacted_def split: option.splits sum.splits)

lemma redact_key_eq:
  assumes "key \<in> dom rec"
  shows "redact_key c rec key st =
           Inr (st\<lparr>safe_rec := (safe_rec st)(key := redacted c rec key (safe_rec st key))\<rparr>)"
proof (cases "redaction_placeholders c key")
  case None
  then show ?thesis by (simp add: redacted_def)
next
  case (Some mask_val)
  show ?thesis
  proof (cases "redactors mask_val")
    case None
    with Some show ?thesis by (simp add: redacted_def)
  next
    case fn: (Some mask_fn)
    from assms obtain v where v: "rec key = Some v" by blast
    from redactors_total [OF fn] obtain m where m: "mask_fn v = Inr m" by blast
    from Some fn v m show ?thesis by (simp add: redacted_def)
  qed
qed

declare redact_key.simps [simp del]

lemma redact_pass_eq:
  "set ks \<subseteq> dom rec \<Longrightarrow>
   redact_pass c rec ks st =
     Inr (st\<lparr>safe_rec := (\<lambda>k. if k \<in> set ks then redacted c rec k (safe_rec st k) else safe_rec st k)\<rparr>)"
proof (induction ks arbitrary: st)
  case Nil
  then show ?case by simp
next
  case (Cons key ks)
  then have key: "key \<in> dom rec" and ks: "set ks \<subseteq> dom rec" by simp_all
  have eq: "(\<lambda>k. if k \<in> set ks
              then redacted c rec k (((safe_rec st)(key := redacted c rec key (safe_rec st key))) k)
              else ((safe_rec st)(key := redacted c rec key (safe_rec st key))) k) =
        (\<lambda>k. if k \<in> set (key # ks) then redacted c rec k (safe_rec st k) else safe_rec st k)"
    by (rule ext) (simp add: redacted_idem)
  have "redact_pass c rec (key # ks) st =
          redact_pass c rec ks (st\<lparr>safe_rec := (safe_rec st)(key := redacted c rec key (safe_rec st key))\<rparr>)"
    by (simp add: redact_key_eq [OF key])
  also have "\<dots> = Inr (st\<lparr>safe_rec := (\<lambda>k. if k \<in> set ks
              then redacted c rec k (((safe_rec st)(key := redacted c rec key (safe_rec st key))) k)
              else ((safe_rec st)(key := redacted c rec key (safe_rec st key))) k)\<rparr>)"
    by (simp add: Cons.IH [OF ks] cong: if_cong)
  finally show ?case
    by (simp only: eq)
qed

text \<open>
  Python iterates over a set in an order that the language does not fix. The redaction
  loop gives the same result for every order, and for every repetition, of the same
  keys.
\<close>

lemma redact_pass_order:
  "set ks \<subseteq> dom rec \<Longrightarrow> set ks' = set ks \<Longrightarrow> redact_pass c rec ks' st = redact_pass c rec ks st"
  by (simp add: redact_pass_eq)

lemma combo_pass_safe: "safe_rec (fst (combo_pass rec rules (st, ck))) = safe_rec st"
  by (simp add: combo_pass_state)


section \<open>The whole scan\<close>

lemma combo_pass_keys_indep:
  "snd (combo_pass rec rules (st, ck)) = snd (combo_pass rec rules (st', ck))"
proof (induction rules arbitrary: st st' ck)
  case Nil
  then show ?case by simp
next
  case (Cons r rs)
  obtain name rule where r: "r = (name, rule)" by (cases r)
  show ?case
    using Cons.IH by (simp add: r combo_step_eq del: combo_matches.simps)
qed

lemma combo_keys_of_set: "set (combo_keys_of c rec) = pending_keys rec (combinatorial_pii_sets c)"
  by (simp add: combo_keys_of_def combo_pass_keys)

lemma combo_keys_of_distinct: "distinct (combo_keys_of c rec)"
  by (simp add: combo_keys_of_def combo_pass_distinct)

lemma scan_unfold:
  "scan c rec = Inr r \<longleftrightarrow>
     (\<exists>st1. standalone_pass rec (standalone_pii_patterns c)
              \<lparr>safe_rec = rec, score = 0, log_entries = []\<rparr> = Inr st1 \<and>
       r = finish
            (st1\<lparr>score := score st1 + combo_score rec (combinatorial_pii_sets c),
                 log_entries := log_entries st1 @
                   map (\<lambda>(name, rule). ''found combo pii ['' @ join ''+'' (keys_found rec rule) @ '']'')
                     (filter (combo_matches rec) (combinatorial_pii_sets c)),
                 safe_rec := (\<lambda>k. if k \<in> set (combo_keys_of c rec)
                                   then redacted c rec k (safe_rec st1 k) else safe_rec st1 k)\<rparr>))"
proof -
  have tail: "(case combo_pass rec (combinatorial_pii_sets c) (st1, []) of
          (st2, combo_keys) \<Rightarrow>
            (case redact_pass c rec combo_keys st2 of
               Inl e \<Rightarrow> Inl e
             | Inr st3 \<Rightarrow> Inr (finish st3))) =
        Inr (finish
            (st1\<lparr>score := score st1 + combo_score rec (combinatorial_pii_sets c),
                 log_entries := log_entries st1 @
                   map (\<lambda>(name, rule). ''found combo pii ['' @ join ''+'' (keys_found rec rule) @ '']'')
                     (filter (combo_matches rec) (combinatorial_pii_sets c)),
                 safe_rec := (\<lambda>k. if k \<in> set (combo_keys_of c rec)
                                   then redacted c rec k (safe_rec st1 k) else safe_rec st1 k)\<rparr>))"
    for st1
  proof -
    obtain st2 cks where cp: "combo_pass rec (combinatorial_pii_sets c) (st1, []) = (st2, cks)"
      by (cases "combo_pass rec (combinatorial_pii_sets c) (st1, [])")
    have st2: "st2 = st1\<lparr>score := score st1 + combo_score rec (combinatorial_pii_sets c),
                 log_entries := log_entries st1 @
                   map (\<lambda>(name, rule). ''found combo pii ['' @ join ''+'' (keys_found rec rule) @ '']'')
                     (filter (combo_matches rec) (combinatorial_pii_sets c))\<rparr>"
      using combo_pass_state [of rec "combinatorial_pii_sets c" st1 "[]"] cp by simp
    have cks: "cks = combo_keys_of c rec"
      using combo_pass_keys_indep [of rec "combinatorial_pii_sets c" st1 "[]"] cp
      by (simp add: combo_keys_of_def)
    have sub: "set cks \<subseteq> dom rec"
      using pending_keys_dom by (simp add: cks combo_keys_of_set)
    show ?thesis
      by (simp add: cp redact_pass_eq [OF sub] cks [symmetric] st2 cong: if_cong)
  qed
  show ?thesis
    unfolding scan_def by (auto simp add: tail split: sum.splits)
qed

lemma scan_total: "valid_catalog c \<Longrightarrow> \<exists>r. scan c rec = Inr r"
proof -
  assume "valid_catalog c"
  then have "\<forall>(k, rule) \<in> set (standalone_pii_patterns c). redactor rule \<in> dom redactors"
    by (simp add: valid_catalog_def)
  from standalone_pass_total [OF this]
  obtain st1 where "standalone_pass rec (standalone_pii_patterns c)
              \<lparr>safe_rec = rec, score = 0, log_entries = []\<rparr> = Inr st1" by blast
  then show ?thesis by (auto simp: scan_unfold)
qed

lemma finish_simps:
  "res_rec (finish st) = safe_rec st"
  "res_is_pii (finish st) = (1 / 2 < min 1 (score st))"
  "res_confidence (finish st) = py_round2 (min 1 (score st))"
  "res_reason (finish st) =
     (if log_entries st \<noteq> [] then join '', '' (log_entries st) else ''No PII detected'')"
  by (auto simp add: finish_def Let_def min_def)

lemma scan_finish:
  assumes "scan c rec = Inr r"
  shows "\<exists>st1 st3. standalone_pass rec (standalone_pii_patterns c)
              \<lparr>safe_rec = rec, score = 0, log_entries = []\<rparr> = Inr st1 \<and>
           r = finish st3 \<and> score st3 = total_score c rec \<and>
           safe_rec st3 = (\<lambda>k. if k \<in> set (combo_keys_of c rec)
                                   then redacted c rec k (safe_rec st1 k) else safe_rec st1 k) \<and>
           log_entries st3 =
             map (\<lambda>(k, rule). ''found solo pii ['' @ k @ '']'')
               (filter (fires rec) (standalone_pii_patterns c)) @
             map (\<lambda>(name, rule). ''found combo pii ['' @ join ''+'' (keys_found rec rule) @ '']'')
               (filter (combo_matches rec) (combinatorial_pii_sets c))"
proof -
  from assms obtain st1 where
    st1: "standalone_pass rec (standalone_pii_patterns c)
              \<lparr>safe_rec = rec, score = 0, log_entries = []\<rparr> = Inr st1" and
    r: "r = finish
            (st1\<lparr>score := score st1 + combo_score rec (combinatorial_pii_sets c),
                 log_entries := log_entries st1 @
                   map (\<lambda>(name, rule). ''found combo pii ['' @ join ''+'' (keys_found rec rule) @ '']'')
                     (filter (combo_matches rec) (combinatorial_pii_sets c)),
                 safe_rec := (\<lambda>k. if k \<in> set (combo_keys_of c rec)
                                   then redacted c rec k (safe_rec st1 k) else safe_rec st1 k)\<rparr>)"
    unfolding scan_unfold by blast
  from standalone_pass_score [OF st1] have sc: "score st1 = standalone_score rec (standalone_pii_patterns c)"
    by simp
  from standalone_pass_log [OF st1] have lg: "log_entries st1 =
      map (\<lambda>(k, rule). ''found solo pii ['' @ k @ '']'') (filter (fires rec) (standalone_pii_patterns c))"
    by simp
  show ?thesis
    apply (rule exI [of _ st1])
    apply (rule exI)
    apply (intro conjI)
        apply (rule st1)
       apply (rule r)
      apply (simp_all add: sc lg total_score_def)
    done
qed

lemma round_half_even_mono: "x \<le> y \<Longrightarrow> round_half_even x \<le> round_half_even y"
proof -
  assume xy: "x \<le> y"
  then have fl: "\<lfloor>x\<rfloor> \<le> \<lfloor>y\<rfloor>" by (rule floor_mono)
  show ?thesis
  proof (cases "\<lfloor>x\<rfloor> = \<lfloor>y\<rfloor>")
    case True
    with xy show ?thesis
      by (auto simp: round_half_even_def Let_def)
  next
    case False
    with fl have "\<lfloor>x\<rfloor> + 1 \<le> \<lfloor>y\<rfloor>" by simp
    moreover have "round_half_even x \<le> \<lfloor>x\<rfloor> + 1" by (simp add: round_half_even_def Let_def)
    moreover have "\<lfloor>y\<rfloor> \<le> round_half_even y" by (simp add: round_half_even_def Let_def)
    ultimately show ?thesis by linarith
  qed
qed


lemma py_round2_mono: "x \<le> y \<Longrightarrow> py_round2 x \<le> py_round2 y"
  using round_half_even_mono [of "x * 100" "y * 100"]
  by (simp add: py_round2_def divide_right_mono)



lemma standalone_score_nonneg:
  "\<forall>(k, rule) \<in> set rules. 0 \<le> base_score rule \<Longrightarrow> 0 \<le> standalone_score rec rules"
  unfolding standalone_score_def by (rule sum_list_nonneg) auto



lemma redacted_Some: "old \<noteq> None \<Longrightarrow> redacted c rec key old \<noteq> None"
  by (auto simp add: redacted_def split: option.splits sum.splits)

lemma scan_dom: "scan c rec = Inr r \<Longrightarrow> dom (res_rec r) = dom rec"
proof -
  assume r: "scan c rec = Inr r"
  from scan_finish [OF r] obtain st1 st3 where
    st1: "standalone_pass rec (standalone_pii_patterns c)
              \<lparr>safe_rec = rec, score = 0, log_entries = []\<rparr> = Inr st1" and
    st3: "r = finish st3" and
    safe: "safe_rec st3 = (\<lambda>k. if k \<in> set (combo_keys_of c rec)
                                   then redacted c rec k (safe_rec st1 k) else safe_rec st1 k)"
    by blast
  from standalone_pass_dom [OF st1] have d1: "dom (safe_rec st1) = dom rec" by simp
  have "(res_rec r k = None) = (rec k = None)" for k
  proof (cases "k \<in> set (combo_keys_of c rec)")
    case True
    then have "k \<in> dom rec" using pending_keys_dom by (auto simp: combo_keys_of_set)
    with d1 have "safe_rec st1 k \<noteq> None" "rec k \<noteq> None" by auto
    with True redacted_Some [of "safe_rec st1 k" c rec k] show ?thesis
      by (auto simp add: st3 finish_simps safe)
  next
    case False
    from d1 have "(k \<in> dom (safe_rec st1)) = (k \<in> dom rec)" by simp
    then have "(safe_rec st1 k = None) = (rec k = None)" by (simp only: domIff) blast
    with False show ?thesis
      by (simp add: st3 finish_simps safe)
  qed
  then show ?thesis by (auto simp: dom_def)
qed

lemma scan_untouched:
  assumes "scan c rec = Inr r"
    and "\<forall>rule. (k, rule) \<in> set (standalone_pii_patterns c) \<longrightarrow> \<not> fires rec (k, rule)"
    and "k \<notin> set (combo_keys_of c rec)"
  shows "res_rec r k = rec k"
proof -
  from scan_finish [OF assms(1)] obtain st1 st3 where
    st1: "standalone_pass rec (standalone_pii_patterns c)
              \<lparr>safe_rec = rec, score = 0, log_entries = []\<rparr> = Inr st1" and
    st3: "r = finish st3" and
    safe: "safe_rec st3 = (\<lambda>k. if k \<in> set (combo_keys_of c rec)
                                   then redacted c rec k (safe_rec st1 k) else safe_rec st1 k)"
    by blast
  from standalone_pass_safe_other [OF st1 assms(2)] have "safe_rec st1 k = rec k" by simp
  with assms(3) show ?thesis by (simp add: st3 finish_simps safe)
qed

lemma scan_pending:
  assumes "scan c rec = Inr r"
  shows "\<exists>st1. standalone_pass rec (standalone_pii_patterns c)
              \<lparr>safe_rec = rec, score = 0, log_entries = []\<rparr> = Inr st1 \<and>
           (\<forall>key \<in> set (combo_keys_of c rec). res_rec r key = redacted c rec key (safe_rec st1 key))"
proof -
  from scan_finish [OF assms] obtain st1 st3 where
    st1: "standalone_pass rec (standalone_pii_patterns c)
              \<lparr>safe_rec = rec, score = 0, log_entries = []\<rparr> = Inr st1" and
    st3: "r = finish st3" and
    safe: "safe_rec st3 = (\<lambda>k. if k \<in> set (combo_keys_of c rec)
                                   then redacted c rec k (safe_rec st1 k) else safe_rec st1 k)"
    by blast
  show ?thesis
    using st1 by (auto simp add: st3 finish_simps safe)
qed

lemma redacted_strategy:
  assumes "redaction_placeholders c key = Some mask_val" and "redactors mask_val = Some mask_fn"
    and "key \<in> dom rec"
  shows "\<exists>v m. rec key = Some v \<and> mask_fn v = Inr m \<and> redacted c rec key old = Some (VStr m)"
proof -
  from assms(3) obtain v where v: "rec key = Some v" by blast
  from redactors_total [OF assms(2)] obtain m where m: "mask_fn v = Inr m" by blast
  from assms(1,2) v m show ?thesis by (simp add: redacted_def)
qed

lemma redacted_literal:
  "redaction_placeholders c key = Some mask_val \<Longrightarrow> redactors mask_val = None \<Longrightarrow>
   mask_val \<noteq> [] \<Longrightarrow> redacted c rec key old = Some (VStr mask_val)"
  by (simp add: redacted_def)

lemma redactors_empty_name: "redactors [] = None"
  by (simp add: redactors_def)

lemma redacted_unchanged:
  "redaction_placeholders c key = None \<or> redaction_placeholders c key = Some [] \<Longrightarrow>
   redacted c rec key old = old"
  by (auto simp add: redacted_def redactors_empty_name)

lemma keys_found_dom_cong: "dom a = dom b \<Longrightarrow> keys_found a rule = keys_found b rule"
proof -
  assume d: "dom a = dom b"
  have "(a k \<noteq> None) = (b k \<noteq> None)" for k
    using d by (metis domIff)
  then show ?thesis by (simp add: keys_found_def)
qed

lemma combo_matches_dom_cong: "dom a = dom b \<Longrightarrow> combo_matches a x = combo_matches b x"
  by (cases x) (simp add: keys_found_dom_cong [of a b])

lemma combo_score_dom_cong: "dom a = dom b \<Longrightarrow> combo_score a rules = combo_score b rules"
proof -
  assume d: "dom a = dom b"
  have f: "filter (combo_matches a) rules = filter (combo_matches b) rules"
    using combo_matches_dom_cong [OF d] by (simp cong: filter_cong)
  have m: "(\<lambda>(name, rule). combo_base_score rule * real (length (keys_found a rule))) =
           (\<lambda>(name, rule). combo_base_score rule * real (length (keys_found b rule)))"
    by (simp add: keys_found_dom_cong [OF d])
  show ?thesis
    unfolding combo_score_def by (simp only: f m)
qed

lemma standalone_score_none: "\<forall>x \<in> set rules. \<not> fires rec x \<Longrightarrow> standalone_score rec rules = 0"
proof -
  assume "\<forall>x \<in> set rules. \<not> fires rec x"
  then have "filter (fires rec) rules = []" by (simp add: filter_empty_conv)
  then show ?thesis by (simp add: standalone_score_def)
qed

lemma scan_total_none_fire:
  "\<forall>x \<in> set (standalone_pii_patterns c). \<not> fires rec x \<Longrightarrow> \<exists>r. scan c rec = Inr r"
  using standalone_pass_none_fire [of "standalone_pii_patterns c" rec]
  by (auto simp: scan_unfold)

lemmas demo_simps = demo_conf_def demo_rec_def ssn_pattern_def email_pattern_def
  valid_catalog_def nonneg_scores_def redactors_def total_score_def standalone_score_def
  combo_score_def fires.simps keys_found_def

lemma demo_combo_keys:
  "combo_keys_of demo_conf demo_rec = [''zip'', ''city'', ''last_name'', ''first_name'']"
  by (simp add: combo_keys_of_def demo_conf_def demo_rec_def combo_step_eq keys_found_def
      List.union_def List.insert_def)

lemma demo_scan_zip: "scan_field demo_conf demo_rec ''zip'' = Inr (Some (VStr ''94110''))"
  by (simp add: scan_field_def scan_def demo_conf_def demo_rec_def ssn_pattern_def
      standalone_step.simps combo_step_eq keys_found_def List.union_def List.insert_def
      redact_key.simps redactors_def mask_num_def finish_def Let_def)

lemma demo_standalone:
  "standalone_pass demo_rec (standalone_pii_patterns demo_conf)
     \<lparr>safe_rec = demo_rec, score = 0, log_entries = []\<rparr> =
   Inr \<lparr>safe_rec = demo_rec(''ssn'' \<mapsto> VStr ''12XXXXXXX89''), score = 9 / 10,
        log_entries = [''found solo pii [ssn]'']\<rparr>"
  by (simp add: demo_conf_def demo_rec_def ssn_pattern_def standalone_step.simps redactors_def
      mask_num_def)

lemma demo_scan_rec:
  "map_sum id res_rec (scan demo_conf demo_rec) =
   Inr (demo_rec(''ssn'' \<mapsto> VStr ''12XXXXXXX89'', ''last_name'' \<mapsto> VStr ''[REDACTED]'',
                 ''first_name'' \<mapsto> VStr ''AlXXXXXer''))"
  by (simp add: scan_def demo_conf_def demo_rec_def ssn_pattern_def
      standalone_step.simps combo_step_eq keys_found_def List.union_def List.insert_def
      redact_key.simps redactors_def mask_num_def finish_def Let_def)

section \<open>The scan on the store computes the scan on values\<close>

lemma h_of_simps [simp]:
  "heap (h_of h0 st) = h0 @ [Dict (safe_rec st)]"
  "h_score (h_of h0 st) = score st"
  "h_log (h_of h0 st) = log_entries st"
  by (simp_all add: h_of_def)

lemma nth_old: "a < length h0 \<Longrightarrow> (h0 @ [x]) ! a = h0 ! a"
  by (simp add: nth_append)

lemma h_set_copy: "h_set (h0 @ [Dict d]) (length h0) k v = h0 @ [Dict (d(k \<mapsto> v))]"
  by (simp add: h_set_def)

lemma h_of_update:
  "(h_of h0 st)\<lparr>h_score := sc, h_log := lg, heap := h0 @ [Dict d]\<rparr> =
   h_of h0 (st\<lparr>score := sc, log_entries := lg, safe_rec := d\<rparr>)"
  by (simp add: h_of_def)

lemma h_of_update_heap:
  "(h_of h0 st)\<lparr>heap := h0 @ [Dict d]\<rparr> = h_of h0 (st\<lparr>safe_rec := d\<rparr>)"
  by (simp add: h_of_def)

lemma h_of_update_score:
  "(h_of h0 st)\<lparr>h_score := sc, h_log := lg\<rparr> = h_of h0 (st\<lparr>score := sc, log_entries := lg\<rparr>)"
  by (simp add: h_of_def)

lemma standalone_step_h_sim:
  assumes "rec_a < length h0" and "h0 ! rec_a = Dict rec"
  shows "standalone_step_h rec_a (length h0) x (h_of h0 st) =
           map_sum id (h_of h0) (standalone_step rec x st)"
proof -
  obtain k rule where x: "x = (k, rule)" by (cases x)
  show ?thesis
    using assms
    by (simp add: x standalone_step.simps nth_old h_set_copy h_of_update
        split: option.splits pyval.splits sum.splits)
qed

declare standalone_step_h.simps [simp del]

lemma standalone_pass_h_sim:
  assumes "rec_a < length h0" and "h0 ! rec_a = Dict rec"
  shows "standalone_pass_h rec_a (length h0) rules (h_of h0 st) =
           map_sum id (h_of h0) (standalone_pass rec rules st)"
proof (induction rules arbitrary: st)
  case Nil
  then show ?case by simp
next
  case (Cons r rs)
  show ?case
    by (simp add: standalone_step_h_sim [OF assms] Cons.IH split: sum.splits)
qed

lemma combo_step_h_sim:
  assumes "rec_a < length h0" and "h0 ! rec_a = Dict rec"
  shows "combo_step_h rec_a x (h_of h0 st, ck) =
           (case combo_step rec x (st, ck) of (st', ck') \<Rightarrow> (h_of h0 st', ck'))"
proof -
  obtain name rule where x: "x = (name, rule)" by (cases x)
  show ?thesis
    using assms
    by (simp add: x combo_step_eq nth_old h_of_update_score Let_def del: combo_matches.simps)
      (simp add: Let_def)
qed

declare combo_step_h.simps [simp del]

lemma combo_pass_h_sim:
  assumes "rec_a < length h0" and "h0 ! rec_a = Dict rec"
  shows "combo_pass_h rec_a rules (h_of h0 st, ck) =
           (case combo_pass rec rules (st, ck) of (st', ck') \<Rightarrow> (h_of h0 st', ck'))"
proof (induction rules arbitrary: st ck)
  case Nil
  then show ?case by simp
next
  case (Cons r rs)
  obtain st1 ck1 where s1: "combo_step rec r (st, ck) = (st1, ck1)"
    by (cases "combo_step rec r (st, ck)")
  show ?case
    by (simp add: combo_step_h_sim [OF assms] s1 Cons.IH)
qed

lemma redact_key_h_sim:
  assumes "rec_a < length h0" and "h0 ! rec_a = Dict rec"
    and "self_a < length h0" and "h0 ! self_a = Catalog c"
  shows "redact_key_h self_a rec_a (length h0) key (h_of h0 st) =
           map_sum id (h_of h0) (redact_key c rec key st)"
  using assms
  by (simp add: redact_key.simps nth_old h_set_copy h_of_update_heap
      split: option.splits sum.splits)

declare redact_key_h.simps [simp del]

lemma redact_pass_h_sim:
  assumes "rec_a < length h0" and "h0 ! rec_a = Dict rec"
    and "self_a < length h0" and "h0 ! self_a = Catalog c"
  shows "redact_pass_h self_a rec_a (length h0) ks (h_of h0 st) =
           map_sum id (h_of h0) (redact_pass c rec ks st)"
proof (induction ks arbitrary: st)
  case Nil
  then show ?case by simp
next
  case (Cons key ks)
  show ?case
    by (simp add: redact_key_h_sim [OF assms] Cons.IH split: sum.splits)
qed

lemma scan_h_refines:
  assumes "rec_a < length h" and "h ! rec_a = Dict rec"
    and "self_a < length h" and "h ! self_a = Catalog c"
  shows "scan_h h self_a rec_a =
           (case scan c rec of
              Inl e \<Rightarrow> Inl e
            | Inr r \<Rightarrow>
                Inr (h @ [Dict (res_rec r)],
                     (length h, res_is_pii r, res_confidence r, res_reason r)))"
proof -
  let ?init = "\<lparr>safe_rec = rec, score = 0, log_entries = []\<rparr>"
  have init: "\<lparr>heap = h @ [Dict rec], h_score = 0, h_log = []\<rparr> = h_of h ?init"
    by (simp add: h_of_def)
  show ?thesis
  proof (cases "standalone_pass rec (standalone_pii_patterns c) ?init")
    case (Inl e)
    then show ?thesis
      using assms
      by (simp add: scan_h_def scan_def h_copy_def nth_old init standalone_pass_h_sim [OF assms(1,2)])
  next
    case (Inr st1)
    obtain st2 cks where cp: "combo_pass rec (combinatorial_pii_sets c) (st1, []) = (st2, cks)"
      by (cases "combo_pass rec (combinatorial_pii_sets c) (st1, [])")
    show ?thesis
    proof (cases "redact_pass c rec cks st2")
      case (Inl e)
      with assms Inr cp show ?thesis
        by (simp add: scan_h_def scan_def h_copy_def nth_old init
            standalone_pass_h_sim [OF assms(1,2)] combo_pass_h_sim [OF assms(1,2)]
            redact_pass_h_sim [OF assms])
    next
      case st3: (Inr st3)
      with assms Inr cp show ?thesis
        by (simp add: scan_h_def scan_def h_copy_def nth_old init
            standalone_pass_h_sim [OF assms(1,2)] combo_pass_h_sim [OF assms(1,2)]
            redact_pass_h_sim [OF assms] finish_def Let_def)
    qed
  qed
qed

section \<open>Confidence and verdict\<close>




section \<open>Totality\<close>

text \<open>
  Claim C7. When every redactor name of a standalone rule is one of the three
  strategies, \<open>scan\<close> returns a result for every record: no exception leaves it.
  Each strategy returns a string for every value. A standalone rule whose field is
  absent from the record, or holds a value that is not a string, is skipped: the step
  leaves the state as it was and raises nothing. (Placeholder assignments need not name
  a strategy: any other string is stored as a literal.)
\<close>

theorem C7_scan_total:
  assumes "valid_catalog c"
  shows "(\<exists>r. scan c rec = Inr r) \<and>
         (\<exists>s. mask_str v = Inr s) \<and> (\<exists>s. mask_mail v = Inr s) \<and> (\<exists>s. mask_num v = Inr s) \<and>
         (\<forall>k rule st. rec k = None \<or> (\<exists>w. rec k = Some w \<and> \<not> is_str w) \<longrightarrow>
            standalone_step rec (k, rule) st = Inr st)"
proof -
  have skip: "standalone_step rec (k, rule) st = Inr st"
    if "rec k = None \<or> (\<exists>w. rec k = Some w \<and> \<not> is_str w)" for k rule st
  proof -
    from that have "\<not> fires rec (k, rule)" by (auto simp: fires_iff)
    then show ?thesis by (rule standalone_step_not_fires)
  qed
  from scan_total [OF assms] mask_str_total mask_mail_total mask_num_total skip
  show ?thesis by blast
qed

theorem C7_scan_total_witness:
  "valid_catalog demo_conf \<and>
   (\<exists>r. scan demo_conf (demo_rec(''ssn'' \<mapsto> VInt 123456789)) = Inr r) \<and>
   (\<exists>s. mask_mail VNone = Inr s) \<and>
   standalone_step (demo_rec(''ssn'' \<mapsto> VInt 123456789))
     (''ssn'', \<lparr>compiled = ssn_pattern, base_score = 9 / 10, redactor = ''mask_numeric''\<rparr>)
     \<lparr>safe_rec = Map.empty, score = 0, log_entries = []\<rparr> =
   Inr \<lparr>safe_rec = Map.empty, score = 0, log_entries = []\<rparr>"
proof -
  have v: "valid_catalog demo_conf" by (simp add: demo_simps)
  from C7_scan_total [OF v, of "demo_rec(''ssn'' \<mapsto> VInt 123456789)" VNone] v show ?thesis
    by simp
qed

section \<open>Fields of the sanitized record\<close>

text \<open>
  Claim C10. The sanitized record returned by \<open>scan\<close> has exactly the field names of
  the input record, and a field that fires no standalone rule and is not in the
  pending-redaction set of the combinatorial pass keeps the value of the input record.
  For a valid catalog \<open>scan\<close> does return.
\<close>

theorem C10_fields_kept:
  "(valid_catalog c \<longrightarrow> (\<exists>r. scan c rec = Inr r)) \<and>
   (\<forall>r. scan c rec = Inr r \<longrightarrow>
      dom (res_rec r) = dom rec \<and>
      (\<forall>k. (\<forall>rule. (k, rule) \<in> set (standalone_pii_patterns c) \<longrightarrow>
                \<not> (\<exists>s. rec k = Some (VStr s) \<and> compiled rule s)) \<and>
           k \<notin> set (combo_keys_of c rec) \<longrightarrow>
           res_rec r k = rec k))"
proof -
  have "dom (res_rec r) = dom rec \<and>
      (\<forall>k. (\<forall>rule. (k, rule) \<in> set (standalone_pii_patterns c) \<longrightarrow>
                \<not> (\<exists>s. rec k = Some (VStr s) \<and> compiled rule s)) \<and>
           k \<notin> set (combo_keys_of c rec) \<longrightarrow>
           res_rec r k = rec k)"
    if r: "scan c rec = Inr r" for r
  proof -
    have "res_rec r k = rec k"
      if "\<forall>rule. (k, rule) \<in> set (standalone_pii_patterns c) \<longrightarrow>
                     \<not> (\<exists>s. rec k = Some (VStr s) \<and> compiled rule s)"
        and "k \<notin> set (combo_keys_of c rec)" for k
      using scan_untouched [OF r _ that(2)] that(1) by (simp add: fires_iff)
    with scan_dom [OF r] show ?thesis by blast
  qed
  with scan_total [of c rec] show ?thesis by blast
qed

theorem C10_fields_kept_witness:
  "valid_catalog demo_conf \<and>
   (\<exists>r. scan demo_conf demo_rec = Inr r \<and> dom (res_rec r) = dom demo_rec \<and>
        res_rec r ''age'' = Some (VInt 42))"
proof -
  have v: "valid_catalog demo_conf" by (simp add: demo_simps)
  from C10_fields_kept [of demo_conf demo_rec] v obtain r where
    r: "scan demo_conf demo_rec = Inr r" by blast
  with C10_fields_kept [of demo_conf demo_rec] have
    d: "dom (res_rec r) = dom demo_rec" and
    keep: "\<And>k. (\<forall>rule. (k, rule) \<in> set (standalone_pii_patterns demo_conf) \<longrightarrow>
                     \<not> (\<exists>s. demo_rec k = Some (VStr s) \<and> compiled rule s)) \<and>
                k \<notin> set (combo_keys_of demo_conf demo_rec) \<Longrightarrow>
                res_rec r k = demo_rec k"
    by blast+
  have "res_rec r ''age'' = demo_rec ''age''"
    by (rule keep) (simp add: demo_combo_keys, simp add: demo_conf_def demo_rec_def)
  then have "res_rec r ''age'' = Some (VInt 42)" by (simp add: demo_rec_def)
  with v r d show ?thesis by blast
qed

section \<open>Redaction of the combinatorial keys\<close>

text \<open>
  Claim C4, as amended. For every field in the pending-redaction set of the
  combinatorial pass, in the record that \<open>scan\<close> returns: if its placeholder assignment
  names a redaction strategy, the sanitized record holds that strategy applied to the
  value of the field in the input record; if the assignment is any other string that is
  not empty, the sanitized record holds that string; if the field has no assignment, or
  the assignment is the empty string, the field keeps the value it had after the
  standalone pass. For a valid catalog \<open>scan\<close> does return.
\<close>

theorem C4_pending_redaction:
  "(valid_catalog c \<longrightarrow> (\<exists>r. scan c rec = Inr r)) \<and>
   (\<forall>r. scan c rec = Inr r \<longrightarrow>
      (\<exists>st1. standalone_pass rec (standalone_pii_patterns c)
              \<lparr>safe_rec = rec, score = 0, log_entries = []\<rparr> = Inr st1 \<and>
         (\<forall>key \<in> set (combo_keys_of c rec).
            (\<forall>mask_val mask_fn.
               redaction_placeholders c key = Some mask_val \<and> redactors mask_val = Some mask_fn \<longrightarrow>
               (\<exists>v m. rec key = Some v \<and> mask_fn v = Inr m \<and> res_rec r key = Some (VStr m))) \<and>
            (\<forall>mask_val.
               redaction_placeholders c key = Some mask_val \<and> redactors mask_val = None \<and>
               mask_val \<noteq> [] \<longrightarrow>
               res_rec r key = Some (VStr mask_val)) \<and>
            (redaction_placeholders c key = None \<or> redaction_placeholders c key = Some [] \<longrightarrow>
               res_rec r key = safe_rec st1 key))))"
proof -
  have "\<exists>st1. standalone_pass rec (standalone_pii_patterns c)
              \<lparr>safe_rec = rec, score = 0, log_entries = []\<rparr> = Inr st1 \<and>
         (\<forall>key \<in> set (combo_keys_of c rec).
            (\<forall>mask_val mask_fn.
               redaction_placeholders c key = Some mask_val \<and> redactors mask_val = Some mask_fn \<longrightarrow>
               (\<exists>v m. rec key = Some v \<and> mask_fn v = Inr m \<and> res_rec r key = Some (VStr m))) \<and>
            (\<forall>mask_val.
               redaction_placeholders c key = Some mask_val \<and> redactors mask_val = None \<and>
               mask_val \<noteq> [] \<longrightarrow>
               res_rec r key = Some (VStr mask_val)) \<and>
            (redaction_placeholders c key = None \<or> redaction_placeholders c key = Some [] \<longrightarrow>
               res_rec r key = safe_rec st1 key))"
    if r: "scan c rec = Inr r" for r
  proof -
    from scan_pending [OF r] obtain st1 where
      st1: "standalone_pass rec (standalone_pii_patterns c)
                \<lparr>safe_rec = rec, score = 0, log_entries = []\<rparr> = Inr st1" and
      res: "\<And>key. key \<in> set (combo_keys_of c rec) \<Longrightarrow>
              res_rec r key = redacted c rec key (safe_rec st1 key)"
      by blast
    have "(\<forall>mask_val mask_fn.
                   redaction_placeholders c key = Some mask_val \<and> redactors mask_val = Some mask_fn \<longrightarrow>
                   (\<exists>v m. rec key = Some v \<and> mask_fn v = Inr m \<and> res_rec r key = Some (VStr m))) \<and>
                (\<forall>mask_val.
                   redaction_placeholders c key = Some mask_val \<and> redactors mask_val = None \<and>
                   mask_val \<noteq> [] \<longrightarrow>
                   res_rec r key = Some (VStr mask_val)) \<and>
                (redaction_placeholders c key = None \<or> redaction_placeholders c key = Some [] \<longrightarrow>
                   res_rec r key = safe_rec st1 key)"
      if key: "key \<in> set (combo_keys_of c rec)" for key
    proof -
      from key have indom: "key \<in> dom rec"
        using pending_keys_dom by (auto simp: combo_keys_of_set)
      show ?thesis
        using redacted_strategy [OF _ _ indom, of c _ _ "safe_rec st1 key"]
          redacted_literal [of c key _ rec "safe_rec st1 key"]
          redacted_unchanged [of c key rec "safe_rec st1 key"]
        by (simp only: res [OF key]) blast
    qed
    with st1 show ?thesis by blast
  qed
  with scan_total [of c rec] show ?thesis by blast
qed

theorem C4_pending_redaction_witness:
  "valid_catalog demo_conf \<and>
   (\<exists>r. scan demo_conf demo_rec = Inr r \<and>
      res_rec r ''first_name'' = Some (VStr ''AlXXXXXer'') \<and>
      res_rec r ''last_name'' = Some (VStr ''[REDACTED]'') \<and>
      res_rec r ''city'' = Some (VStr ''Springfield'') \<and>
      res_rec r ''zip'' = Some (VStr ''94110''))"
proof -
  have v: "valid_catalog demo_conf" by (simp add: demo_simps)
  from C4_pending_redaction [of demo_conf demo_rec] v obtain r where
    r: "scan demo_conf demo_rec = Inr r" by blast
  with C4_pending_redaction [of demo_conf demo_rec] obtain st1 where
    st1: "standalone_pass demo_rec (standalone_pii_patterns demo_conf)
              \<lparr>safe_rec = demo_rec, score = 0, log_entries = []\<rparr> = Inr st1" and
    strategy: "\<And>key mask_val mask_fn. key \<in> set (combo_keys_of demo_conf demo_rec) \<Longrightarrow>
       redaction_placeholders demo_conf key = Some mask_val \<Longrightarrow> redactors mask_val = Some mask_fn \<Longrightarrow>
       \<exists>v m. demo_rec key = Some v \<and> mask_fn v = Inr m \<and> res_rec r key = Some (VStr m)" and
    literal: "\<And>key mask_val. key \<in> set (combo_keys_of demo_conf demo_rec) \<Longrightarrow>
       redaction_placeholders demo_conf key = Some mask_val \<Longrightarrow> redactors mask_val = None \<Longrightarrow>
       mask_val \<noteq> [] \<Longrightarrow> res_rec r key = Some (VStr mask_val)" and
    unchanged: "\<And>key. key \<in> set (combo_keys_of demo_conf demo_rec) \<Longrightarrow>
       redaction_placeholders demo_conf key = None \<or> redaction_placeholders demo_conf key = Some [] \<Longrightarrow>
       res_rec r key = safe_rec st1 key"
    by blast
  from st1 have safe1: "safe_rec st1 = demo_rec(''ssn'' \<mapsto> VStr ''12XXXXXXX89'')"
    by (auto simp add: demo_standalone)
  have k1: "''first_name'' \<in> set (combo_keys_of demo_conf demo_rec)"
    and k2: "''last_name'' \<in> set (combo_keys_of demo_conf demo_rec)"
    and k3: "''city'' \<in> set (combo_keys_of demo_conf demo_rec)"
    and k4: "''zip'' \<in> set (combo_keys_of demo_conf demo_rec)"
    by (simp_all add: demo_combo_keys)
  have p1: "redaction_placeholders demo_conf ''first_name'' = Some ''mask_string''"
    and p2: "redaction_placeholders demo_conf ''last_name'' = Some ''[REDACTED]''"
    and p3: "redaction_placeholders demo_conf ''city'' = None"
    and p4: "redaction_placeholders demo_conf ''zip'' = Some []"
    by (simp_all add: demo_conf_def)
  have f1: "redactors ''mask_string'' = Some mask_str" and f2: "redactors ''[REDACTED]'' = None"
    by (simp_all add: redactors_def)
  from strategy [OF k1 p1 f1] have first: "res_rec r ''first_name'' = Some (VStr ''AlXXXXXer'')"
    by (auto simp add: demo_rec_def)
  from literal [OF k2 p2 f2] have last: "res_rec r ''last_name'' = Some (VStr ''[REDACTED]'')"
    by simp
  from unchanged [OF k3] p3 have city: "res_rec r ''city'' = Some (VStr ''Springfield'')"
    by (simp add: safe1 demo_rec_def)
  from unchanged [OF k4] p4 have zip: "res_rec r ''zip'' = Some (VStr ''94110'')"
    by (simp add: safe1 demo_rec_def)
  from v r first last city zip show ?thesis by blast
qed

text \<open>
  An empty replacement string is a literal that names no strategy, and it is not
  stored: the field \<open>zip\<close> is in the pending-redaction set, its assignment is the empty
  string, and the sanitized record still holds the input value.
\<close>

theorem C4_counterexample:
  "''zip'' \<in> set (combo_keys_of demo_conf demo_rec) \<and>
   redaction_placeholders demo_conf ''zip'' = Some [] \<and>
   redactors [] = None \<and>
   scan_field demo_conf demo_rec ''zip'' = Inr (Some (VStr ''94110'')) \<and>
   scan_field demo_conf demo_rec ''zip'' \<noteq> Inr (Some (VStr []))"
  by (simp add: demo_combo_keys demo_scan_zip redactors_empty_name) (simp add: demo_conf_def)

section \<open>The rules of the two passes\<close>





section \<open>Scanning the sanitized record again\<close>

text \<open>
  Claim C8. For a catalog whose standalone base scores are not negative (as the
  catalog's data model has them) and for every record: if no string value of the
  sanitized record that \<open>scan\<close> returns is fully matched by the pattern of any standalone
  rule, then scanning the sanitized record returns too, with a confidence lower than or
  equal to the confidence reported for the original record. (The two records have the
  same field names, so the combinatorial rules contribute the same amount both times,
  and the second time no standalone rule contributes.) For a valid catalog the first
  scan does return.
\<close>

theorem C8_rescan:
  assumes "\<forall>(k, rule) \<in> set (standalone_pii_patterns c). 0 \<le> base_score rule"
  shows "(valid_catalog c \<longrightarrow> (\<exists>r. scan c rec = Inr r)) \<and>
         (\<forall>r. scan c rec = Inr r \<longrightarrow>
            (\<forall>k s. res_rec r k = Some (VStr s) \<longrightarrow>
               (\<forall>(f, rule) \<in> set (standalone_pii_patterns c). \<not> compiled rule s)) \<longrightarrow>
            (\<exists>r'. scan c (res_rec r) = Inr r' \<and> res_confidence r' \<le> res_confidence r))"
proof -
  have "\<exists>r'. scan c (res_rec r) = Inr r' \<and> res_confidence r' \<le> res_confidence r"
    if r: "scan c rec = Inr r" and
      clean: "\<forall>k s. res_rec r k = Some (VStr s) \<longrightarrow>
               (\<forall>(f, rule) \<in> set (standalone_pii_patterns c). \<not> compiled rule s)" for r
  proof -
    have nofire: "\<forall>x \<in> set (standalone_pii_patterns c). \<not> fires (res_rec r) x"
    proof
      fix x assume x: "x \<in> set (standalone_pii_patterns c)"
      obtain k rule where kr: "x = (k, rule)" by (cases x)
      show "\<not> fires (res_rec r) x"
      proof
        assume "fires (res_rec r) x"
        then obtain s where s: "res_rec r k = Some (VStr s)" "compiled rule s"
          by (auto simp: kr fires_iff)
        from clean s(1) have b: "\<forall>(f, rule) \<in> set (standalone_pii_patterns c). \<not> compiled rule s"
          by blast
        from bspec [OF b x] have "\<not> compiled rule s" by (simp add: kr)
        with s(2) show False by simp
      qed
    qed
    from scan_total_none_fire [OF nofire] obtain r' where r': "scan c (res_rec r) = Inr r'" by blast
    from scan_dom [OF r] have "combo_score (res_rec r) (combinatorial_pii_sets c) =
        combo_score rec (combinatorial_pii_sets c)"
      by (rule combo_score_dom_cong)
    then have t': "total_score c (res_rec r) = combo_score rec (combinatorial_pii_sets c)"
      by (simp add: total_score_def standalone_score_none [OF nofire])
    have "0 \<le> standalone_score rec (standalone_pii_patterns c)"
      by (rule standalone_score_nonneg [OF assms])
    then have "total_score c (res_rec r) \<le> total_score c rec"
      unfolding t' by (simp add: total_score_def)
    then have "min 1 (total_score c (res_rec r)) \<le> min 1 (total_score c rec)"
      by simp
    from py_round2_mono [OF this] have "res_confidence r' \<le> res_confidence r"
      using scan_finish [OF r] scan_finish [OF r'] by (auto simp: finish_simps)
    with r' show ?thesis by blast
  qed
  with scan_total [of c rec] show ?thesis by blast
qed

theorem C8_rescan_witness:
  "valid_catalog demo_conf \<and> nonneg_scores demo_conf \<and>
   (\<exists>r r'. scan demo_conf demo_rec = Inr r \<and> scan demo_conf (res_rec r) = Inr r' \<and>
      res_confidence r' \<le> res_confidence r)"
proof -
  have v: "valid_catalog demo_conf" by (simp add: demo_simps)
  have n: "nonneg_scores demo_conf" by (simp add: demo_simps)
  then have n': "\<forall>(k, rule) \<in> set (standalone_pii_patterns demo_conf). 0 \<le> base_score rule"
    by (simp add: nonneg_scores_def)
  from C8_rescan [OF n', of demo_rec] v obtain r where
    r: "scan demo_conf demo_rec = Inr r" by blast
  from demo_scan_rec r have rr: "res_rec r =
      demo_rec(''ssn'' \<mapsto> VStr ''12XXXXXXX89'', ''last_name'' \<mapsto> VStr ''[REDACTED]'',
                 ''first_name'' \<mapsto> VStr ''AlXXXXXer'')"
    by simp
  have clean: "\<forall>k s. res_rec r k = Some (VStr s) \<longrightarrow>
               (\<forall>(f, rule) \<in> set (standalone_pii_patterns demo_conf). \<not> compiled rule s)"
    unfolding rr
    by (auto simp add: demo_conf_def demo_rec_def ssn_pattern_def email_pattern_def split: if_splits)
  from C8_rescan [OF n', of demo_rec] r clean
  obtain r' where "scan demo_conf (res_rec r) = Inr r'" "res_confidence r' \<le> res_confidence r"
    by blast
  with v n r show ?thesis by blast
qed

section \<open>The input record and the catalog are not mutated\<close>

text \<open>
  Claim C9. Let the store hold the catalog at one address and the input record at
  another. After \<open>scan\<close> returns, every object that was in the store before the call is
  unchanged: the input record holds the same value for every field, and so does the
  catalog. The sanitized record that is returned is a distinct copy: its address is
  none of the addresses that existed before the call, so it is neither the record's
  nor the catalog's. The returned values are the ones of \<open>scan\<close> on the record as a
  value. For a valid catalog \<open>scan\<close> does return.
\<close>

theorem C9_no_mutation:
  assumes "rec_a < length h" and "h ! rec_a = Dict rec"
    and "self_a < length h" and "h ! self_a = Catalog c"
  shows "(valid_catalog c \<longrightarrow> (\<exists>res. scan_h h self_a rec_a = Inr res)) \<and>
         (\<forall>h' safe_a is_pii confidence reason.
            scan_h h self_a rec_a = Inr (h', (safe_a, is_pii, confidence, reason)) \<longrightarrow>
            (\<forall>b < length h. h' ! b = h ! b) \<and>
            h' ! rec_a = Dict rec \<and> h' ! self_a = Catalog c \<and>
            safe_a \<noteq> rec_a \<and> safe_a \<noteq> self_a \<and> length h \<le> safe_a \<and> safe_a < length h' \<and>
            scan c rec = Inr \<lparr>res_rec = dict_of (h' ! safe_a), res_is_pii = is_pii,
                                res_confidence = confidence, res_reason = reason\<rparr>)"
proof -
  note ref = scan_h_refines [OF assms]
  have tot: "\<exists>res. scan_h h self_a rec_a = Inr res" if "valid_catalog c"
  proof -
    from scan_total [OF that] obtain r where "scan c rec = Inr r" by blast
    then show ?thesis by (simp add: ref)
  qed
  have frame: "(\<forall>b < length h. h' ! b = h ! b) \<and>
            h' ! rec_a = Dict rec \<and> h' ! self_a = Catalog c \<and>
            safe_a \<noteq> rec_a \<and> safe_a \<noteq> self_a \<and> length h \<le> safe_a \<and> safe_a < length h' \<and>
            scan c rec = Inr \<lparr>res_rec = dict_of (h' ! safe_a), res_is_pii = is_pii,
                                res_confidence = confidence, res_reason = reason\<rparr>"
    if sh: "scan_h h self_a rec_a = Inr (h', (safe_a, is_pii, confidence, reason))"
    for h' safe_a is_pii confidence reason
  proof -
    from sh obtain r where r: "scan c rec = Inr r" and
      h': "h' = h @ [Dict (res_rec r)]" and sa: "safe_a = length h" and
      rest: "is_pii = res_is_pii r" "confidence = res_confidence r" "reason = res_reason r"
      by (auto simp add: ref split: sum.splits)
    from assms show ?thesis
      by (simp add: h' sa rest r nth_append)
  qed
  from tot frame show ?thesis by blast
qed

theorem C9_no_mutation_witness:
  "valid_catalog demo_conf \<and>
   (\<exists>h' safe_a is_pii confidence reason.
      scan_h [Catalog demo_conf, Dict demo_rec] 0 1 = Inr (h', (safe_a, is_pii, confidence, reason)) \<and>
      h' ! 0 = Catalog demo_conf \<and> h' ! 1 = Dict demo_rec \<and> 2 \<le> safe_a \<and>
      dict_of (h' ! safe_a) ''ssn'' = Some (VStr ''12XXXXXXX89''))"
proof -
  have v: "valid_catalog demo_conf" by (simp add: demo_simps)
  note inst = C9_no_mutation [of 1 "[Catalog demo_conf, Dict demo_rec]" demo_rec 0 demo_conf]
  have pre: "1 < length [Catalog demo_conf, Dict demo_rec]"
    "[Catalog demo_conf, Dict demo_rec] ! 1 = Dict demo_rec"
    "0 < length [Catalog demo_conf, Dict demo_rec]"
    "[Catalog demo_conf, Dict demo_rec] ! 0 = Catalog demo_conf"
    by simp_all
  note inst' = inst [OF pre]
  from mp [OF conjunct1 [OF inst'] v] obtain h' safe_a is_pii confidence reason where
    sh: "scan_h [Catalog demo_conf, Dict demo_rec] 0 1 = Inr (h', (safe_a, is_pii, confidence, reason))"
    by (metis prod_cases5)
  from conjunct2 [OF inst'] sh have
    old: "\<forall>b < length [Catalog demo_conf, Dict demo_rec]. h' ! b = [Catalog demo_conf, Dict demo_rec] ! b" and
    fresh: "length [Catalog demo_conf, Dict demo_rec] \<le> safe_a" and
    sc: "scan demo_conf demo_rec = Inr \<lparr>res_rec = dict_of (h' ! safe_a), res_is_pii = is_pii,
                               res_confidence = confidence, res_reason = reason\<rparr>"
    by blast+
  from old have o0: "h' ! 0 = Catalog demo_conf" and o1: "h' ! 1 = Dict demo_rec"
    by simp_all
  from fresh have "2 \<le> safe_a" by simp
  moreover from demo_scan_rec sc have "dict_of (h' ! safe_a) ''ssn'' = Some (VStr ''12XXXXXXX89'')"
    by simp
  ultimately show ?thesis using v sh o0 o1 by blast
qed

end
